theory Spec2Isabelle
  imports Main
begin

section \<open>Data model of \<^verbatim>\<open>src/src/App.tsx\<close>\<close>

text \<open>
  The interfaces of the source become records. A field keeps the source's name unless
  two interfaces share it (\<open>id\<close>, \<open>timestamp\<close>) or the name is taken
  (\<open>id\<close>, \<open>text\<close>); such a field carries the prefix of its interface.
  JavaScript strings are \<open>string\<close>; a \<open>number\<close> holding an integer count of
  milliseconds or an index is \<open>int\<close>.
\<close>

record AxisToken =
  tok_id :: string
  tok_text :: string
  tok_timestamp :: int

record InteractionLog =
  log_id :: string
  session_id :: string
  log_timestamp :: int
  user_tokens :: "AxisToken list"
  ai_response :: string
  provider_used :: string

datatype BootStatus = pending | running | ok | failed

record BootStep =
  step_id :: nat
  label :: string
  detail :: "string option"

record RenderedStep = BootStep +
  status :: BootStatus
  timestamp :: string

definition BOOT_STEPS :: "BootStep list" where
  "BOOT_STEPS =
    [\<lparr>step_id = 1, label = ''AxisOS Core'', detail = Some ''Initializing meta-OS kernel overlay''\<rparr>,
     \<lparr>step_id = 2, label = ''Gemini Engine'', detail = Some ''Logic layer online (reasoning / planning)''\<rparr>,
     \<lparr>step_id = 3, label = ''GPT Engine'', detail = Some ''Execution layer online (code / text / tools)''\<rparr>,
     \<lparr>step_id = 4, label = ''Grok Engine'', detail = Some ''Monitoring layer online (web / anomaly)''\<rparr>,
     \<lparr>step_id = 5, label = ''Neural Link'', detail = Some ''Connecting to Memory Banks...''\<rparr>,
     \<lparr>step_id = 6, label = ''Local Node'', detail = Some ''System Ready.''\<rparr>]"

definition STEP_INTERVAL_MS :: int where
  "STEP_INTERVAL_MS = 600"

section \<open>Boot sequence\<close>

text \<open>
  \<open>formatBootTime\<close> reads the local hours, minutes and seconds of a \<open>Date\<close>. A
  \<open>Date\<close> is its \<open>getTime()\<close>, milliseconds since the epoch; the local time zone is
  the parameter \<open>tz\<close>, the offset of local time from UTC in milliseconds. Each of the
  three numbers is below 100, where \<open>toString().padStart(2, "0")\<close> is two decimal digits.
\<close>

definition digit_char :: "nat \<Rightarrow> char" where
  "digit_char n = char_of (48 + n mod 10)"

definition pad2 :: "nat \<Rightarrow> string" where
  "pad2 n = [digit_char (n div 10), digit_char n]"

definition formatBootTime :: "int \<Rightarrow> int \<Rightarrow> string" where
  "formatBootTime tz date =
    (let secs = (date + tz) div 1000;
         hh = pad2 (nat ((secs div 3600) mod 24));
         mm = pad2 (nat ((secs div 60) mod 60));
         ss = pad2 (nat (secs mod 60))
     in hh @ '':'' @ mm @ '':'' @ ss)"

text \<open>
  The two pieces of state the boot effect writes: \<open>useState<number>(-1)\<close> and
  \<open>useState(false)\<close>.
\<close>

record boot_state =
  bootIndex :: int
  bootCompleted :: bool

definition boot_init :: boot_state where
  "boot_init = \<lparr>bootIndex = - 1, bootCompleted = False\<rparr>"

text \<open>
  The callback of \<open>setInterval\<close>: the updater given to \<open>setBootIndex\<close>, with the
  \<open>setBootCompleted(true)\<close> it performs. The sounds are not part of the state.
\<close>

definition boot_interval :: "boot_state \<Rightarrow> boot_state" where
  "boot_interval s =
    (let prev = bootIndex s; next = prev + 1
     in if next \<ge> int (length BOOT_STEPS)
        then s\<lparr>bootCompleted := True, bootIndex := prev\<rparr>
        else s\<lparr>bootIndex := next\<rparr>)"

text \<open>
  The effect depends on \<open>bootCompleted\<close>: once it is true the effect's cleanup has
  cleared the interval and the effect sets no new one, so a tick of the timer changes the
  state only while \<open>bootCompleted\<close> is false.
\<close>

definition tick :: "boot_state \<Rightarrow> boot_state" where
  "tick s = (if bootCompleted s then s else boot_interval s)"

definition ticks :: "nat \<Rightarrow> boot_state" where
  "ticks k = (tick ^^ k) boot_init"

text \<open>The body of the \<open>BOOT_STEPS.map\<close> callback of \<open>renderedSteps\<close>.\<close>

definition step_status :: "boot_state \<Rightarrow> int \<Rightarrow> BootStatus" where
  "step_status s index =
    (if index < bootIndex s then ok
     else if index = bootIndex s \<and> \<not> bootCompleted s then running
     else if bootCompleted s \<and> index = int (length BOOT_STEPS) - 1 then ok
     else pending)"

definition render_step :: "int \<Rightarrow> int \<Rightarrow> boot_state \<Rightarrow> nat \<times> BootStep \<Rightarrow> RenderedStep" where
  "render_step tz bootStart s p =
    (let index = int (fst p); step = snd p;
         ts = bootStart + min index (bootIndex s) * STEP_INTERVAL_MS
     in \<lparr>step_id = step_id step, label = label step, detail = detail step,
         status = step_status s index,
         timestamp = (if index \<le> bootIndex s then formatBootTime tz ts else ''--:--:--'')\<rparr>)"

definition renderedSteps :: "int \<Rightarrow> int \<Rightarrow> boot_state \<Rightarrow> RenderedStep list" where
  "renderedSteps tz bootStart s = map (render_step tz bootStart s) (enumerate 0 BOOT_STEPS)"

definition running_count :: "RenderedStep list \<Rightarrow> nat" where
  "running_count rs = length (filter (\<lambda>r. status r = running) rs)"

section \<open>Chat state and its handlers\<close>

text \<open>
  \<open>String.prototype.trim\<close> removes white space and line terminators from both ends. A
  \<open>char\<close> carries a code point below 256; the white space of ECMAScript in that range is
  tab, line feed, vertical tab, form feed, carriage return, space and no-break space. A
  string is truthy when it is not empty.
\<close>

definition is_js_space :: "char \<Rightarrow> bool" where
  "is_js_space c = (of_char c \<in> {9, 10, 11, 12, 13, 32, 160 :: nat})"

definition js_trim :: "string \<Rightarrow> string" where
  "js_trim t = rev (dropWhile is_js_space (rev (dropWhile is_js_space t)))"

text \<open>
  \<open>Array.from(new Set(xs))\<close>: a \<open>Set\<close> keeps its elements in insertion order and adding
  an element it already holds changes nothing.
\<close>

definition Set_add :: "'a list \<Rightarrow> 'a \<Rightarrow> 'a list" where
  "Set_add acc x = (if x \<in> set acc then acc else acc @ [x])"

definition Array_from_Set :: "'a list \<Rightarrow> 'a list" where
  "Array_from_Set xs = foldl Set_add [] xs"

text \<open>
  What the specification calls first-appearance order, in its own words: the first
  element, then the first appearances among the rest of what differs from it.
\<close>

fun first_appearance :: "'a list \<Rightarrow> 'a list" where
  "first_appearance [] = []"
| "first_appearance (x # xs) = x # filter (\<lambda>y. y \<noteq> x) (first_appearance xs)"

datatype js_error = JsError string

text \<open>
  An asynchronous function is a task that stands at one of its \<open>await\<close>s. A call of
  \<open>executeSend\<close> that passed its guard waits for the animation frame (holding the
  \<open>text\<close> and the \<open>sessionId\<close> of its closure), then for \<open>ask_axis\<close>, then for
  \<open>fetch_history\<close>. A call of \<open>handleDeleteSession\<close> that was confirmed holds its
  \<open>targetSid\<close> and the \<open>sessionId\<close> of its closure until both of its \<open>invoke\<close>s have
  settled.
\<close>

datatype send_task = AwaitFrame string string | AwaitAsk | AwaitFetch | SendDone

datatype delete_task = AwaitDelete string string | DeleteDone

text \<open>
  One run of the effect that calls \<open>setupListener\<close>: the \<open>sessionId\<close> its callback
  closed over, whether its variable \<open>unlisten\<close> has been assigned, and whether its
  callback is attached to the channel \<open>axis-observer-event\<close>. The promise of \<open>listen\<close>
  resolves to the function that detaches the callback; the callback counts as attached
  from that moment.
\<close>

record listener =
  captured_sessionId :: string
  unlisten :: bool
  attached :: bool

text \<open>
  The state of \<open>App\<close> that the chat handlers read and write (\<open>logs\<close>, \<open>sessionId\<close>,
  \<open>inputValue\<close>, \<open>isThinking\<close>), the tasks and effect runs that are outstanding, and a
  trace of what was called outside: \<open>ask_axis\<close> with its arguments, \<open>fetch_history\<close>,
  \<open>delete_history\<close>, the \<open>unlisten\<close> functions, and \<open>console.error\<close>. A handler reads
  the state of the latest render: React commits the state a handler set before the next
  event is handled.
\<close>

record app_state =
  logs :: "InteractionLog list"
  sessionId :: string
  inputValue :: string
  isThinking :: bool
  init_pending :: bool
  sends :: "send_task list"
  deletes :: "delete_task list"
  listeners :: "listener list"
  ask_calls :: "(string \<times> string) list"
  fetch_calls :: nat
  delete_calls :: "string list"
  unlisten_calls :: nat
  console_errors :: "js_error list"

text \<open>
  After the first render: the effects have run once, so \<open>init\<close> has called
  \<open>fetch_history\<close> and \<open>setupListener\<close> has called \<open>listen\<close> with \<open>sessionId = ""\<close>.
\<close>

definition app_init :: app_state where
  "app_init =
    \<lparr>logs = [], sessionId = [], inputValue = [], isThinking = False,
     init_pending = True, sends = [], deletes = [],
     listeners = [\<lparr>captured_sessionId = [], unlisten = False, attached = False\<rparr>],
     ask_calls = [], fetch_calls = 1, delete_calls = [], unlisten_calls = 0,
     console_errors = []\<rparr>"

subsection \<open>The listener effect\<close>

text \<open>
  The cleanup of the effect's latest run, \<open>if (unlisten) unlisten()\<close>, and the run
  itself, which calls \<open>listen\<close> and leaves \<open>unlisten\<close> unassigned until the promise
  resolves. The effect's dependency is \<open>sessionId\<close>: when \<open>setSessionId\<close> is given a
  different value, React cleans up the latest run and runs the effect again.
\<close>

definition cleanup :: "app_state \<Rightarrow> app_state" where
  "cleanup s =
    (case rev (listeners s) of
       [] \<Rightarrow> s
     | l # older \<Rightarrow>
         if unlisten l
         then s\<lparr>listeners := rev older @ [l\<lparr>attached := False\<rparr>],
                unlisten_calls := Suc (unlisten_calls s)\<rparr>
         else s)"

definition setupListener :: "app_state \<Rightarrow> app_state" where
  "setupListener s =
    s\<lparr>listeners := listeners s @
        [\<lparr>captured_sessionId = sessionId s, unlisten = False, attached = False\<rparr>]\<rparr>"

definition setSessionId :: "string \<Rightarrow> app_state \<Rightarrow> app_state" where
  "setSessionId v s =
    (if v = sessionId s then s else setupListener (cleanup (s\<lparr>sessionId := v\<rparr>)))"

text \<open>The promise of the \<open>i\<close>-th call of \<open>listen\<close> resolves: \<open>unlisten = await listen(...)\<close>.\<close>

definition listen_resolved :: "nat \<Rightarrow> app_state \<Rightarrow> app_state" where
  "listen_resolved i s =
    (if i < length (listeners s) \<and> \<not> unlisten (listeners s ! i)
     then s\<lparr>listeners := (listeners s)[i := (listeners s ! i)\<lparr>unlisten := True, attached := True\<rparr>]\<rparr>
     else s)"

text \<open>
  The callback given to \<open>listen\<close>. \<open>fresh\<close> is what \<open>crypto.randomUUID()\<close> and
  \<open>Date.now()\<close> return to it. An event on the channel runs the callback of every attached
  listener, and each appends its message with \<open>setLogs(prev => [...prev, newMessage])\<close>;
  \<open>fresh k\<close> is what the \<open>k\<close>-th of them draws.
\<close>

definition newMessage :: "string \<Rightarrow> string \<times> int \<Rightarrow> string \<Rightarrow> InteractionLog" where
  "newMessage sid fresh payload =
    \<lparr>log_id = fst fresh, session_id = sid, log_timestamp = snd fresh,
     user_tokens = [], ai_response = payload, provider_used = ''Observer''\<rparr>"

definition observer_event :: "string \<Rightarrow> (nat \<Rightarrow> string \<times> int) \<Rightarrow> app_state \<Rightarrow> app_state" where
  "observer_event payload fresh s =
    s\<lparr>logs := logs s @
        map (\<lambda>p. newMessage (captured_sessionId (snd p)) (fresh (fst p)) payload)
          (enumerate 0 (filter attached (listeners s)))\<rparr>"

subsection \<open>History loading\<close>

text \<open>
  The continuation of \<open>init\<close> when \<open>fetch_history\<close> settles; \<open>uuid\<close> is what
  \<open>crypto.randomUUID()\<close> returns.
\<close>

definition init_settled :: "js_error + InteractionLog list \<Rightarrow> string \<Rightarrow> app_state \<Rightarrow> app_state" where
  "init_settled r uuid s =
    (if \<not> init_pending s then s
     else case r of
       Inl e \<Rightarrow> s\<lparr>init_pending := False, console_errors := console_errors s @ [e]\<rparr>
     | Inr history \<Rightarrow>
         setSessionId (if length history > 0 then session_id (last history) else uuid)
           (s\<lparr>init_pending := False, logs := history\<rparr>))"

subsection \<open>Derived views\<close>

definition sessions :: "app_state \<Rightarrow> string list" where
  "sessions s =
    (let ids = Array_from_Set (map session_id (logs s))
     in if sessionId s \<noteq> [] \<and> sessionId s \<notin> set ids then ids @ [sessionId s] else ids)"

definition currentLogs :: "app_state \<Rightarrow> InteractionLog list" where
  "currentLogs s = filter (\<lambda>l. session_id l = sessionId s) (logs s)"

definition handleNewChat :: "string \<Rightarrow> app_state \<Rightarrow> app_state" where
  "handleNewChat uuid s = setSessionId uuid s"

subsection \<open>Sending\<close>

text \<open>The textarea is \<open>disabled\<close> while \<open>isThinking\<close>, so \<open>onChange\<close> fires only otherwise.\<close>

definition onChange :: "string \<Rightarrow> app_state \<Rightarrow> app_state" where
  "onChange v s = (if isThinking s then s else s\<lparr>inputValue := v\<rparr>)"

text \<open>\<open>executeSend\<close> up to its first \<open>await\<close>.\<close>

definition executeSend :: "app_state \<Rightarrow> app_state" where
  "executeSend s =
    (if js_trim (inputValue s) \<noteq> [] \<and> \<not> isThinking s
     then s\<lparr>inputValue := [], isThinking := True,
            sends := sends s @ [AwaitFrame (js_trim (inputValue s)) (sessionId s)]\<rparr>
     else s)"

text \<open>The animation frame fires for task \<open>i\<close>: it invokes \<open>ask_axis\<close>.\<close>

definition executeSend_frame :: "nat \<Rightarrow> app_state \<Rightarrow> app_state" where
  "executeSend_frame i s =
    (if i < length (sends s)
     then case sends s ! i of
        AwaitFrame text sid \<Rightarrow>
          s\<lparr>ask_calls := ask_calls s @ [(text, sid)], sends := (sends s)[i := AwaitAsk]\<rparr>
      | _ \<Rightarrow> s
     else s)"

text \<open>
  \<open>ask_axis\<close> settles for task \<open>i\<close>: resolved, the task invokes \<open>fetch_history\<close>;
  rejected with \<open>e\<close>, control passes to \<open>catch\<close> and \<open>finally\<close>.
\<close>

definition executeSend_ask :: "nat \<Rightarrow> js_error option \<Rightarrow> app_state \<Rightarrow> app_state" where
  "executeSend_ask i r s =
    (if i < length (sends s) \<and> sends s ! i = AwaitAsk
     then case r of
        None \<Rightarrow> s\<lparr>fetch_calls := Suc (fetch_calls s), sends := (sends s)[i := AwaitFetch]\<rparr>
      | Some e \<Rightarrow>
          s\<lparr>console_errors := console_errors s @ [e], isThinking := False,
            sends := (sends s)[i := SendDone]\<rparr>
     else s)"

text \<open>\<open>fetch_history\<close> settles for task \<open>i\<close>, then \<open>finally\<close>.\<close>

definition executeSend_fetch :: "nat \<Rightarrow> js_error + InteractionLog list \<Rightarrow> app_state \<Rightarrow> app_state" where
  "executeSend_fetch i r s =
    (if i < length (sends s) \<and> sends s ! i = AwaitFetch
     then case r of
        Inr updated \<Rightarrow> s\<lparr>logs := updated, isThinking := False, sends := (sends s)[i := SendDone]\<rparr>
      | Inl e \<Rightarrow>
          s\<lparr>console_errors := console_errors s @ [e], isThinking := False,
            sends := (sends s)[i := SendDone]\<rparr>
     else s)"

subsection \<open>Deleting a session\<close>

text \<open>
  \<open>handleDeleteSession\<close> up to its first \<open>await\<close>; \<open>confirmed\<close> is the answer of
  \<open>confirm\<close>. Between its two \<open>invoke\<close>s the task writes no state, so both settle in
  one step: \<open>d\<close> is the outcome of \<open>delete_history\<close>, \<open>r\<close> that of \<open>fetch_history\<close>.
\<close>

definition handleDeleteSession :: "string \<Rightarrow> bool \<Rightarrow> app_state \<Rightarrow> app_state" where
  "handleDeleteSession targetSid confirmed s =
    (if \<not> confirmed then s
     else s\<lparr>delete_calls := delete_calls s @ [targetSid],
            deletes := deletes s @ [AwaitDelete targetSid (sessionId s)]\<rparr>)"

definition handleDeleteSession_settled ::
  "nat \<Rightarrow> js_error option \<Rightarrow> js_error + InteractionLog list \<Rightarrow> string \<Rightarrow> app_state \<Rightarrow> app_state" where
  "handleDeleteSession_settled i d r uuid s =
    (if i < length (deletes s)
     then case deletes s ! i of
        DeleteDone \<Rightarrow> s
      | AwaitDelete targetSid sid \<Rightarrow>
          (case d of
             Some e \<Rightarrow>
               s\<lparr>console_errors := console_errors s @ [e], deletes := (deletes s)[i := DeleteDone]\<rparr>
           | None \<Rightarrow>
              (case r of
                 Inl e \<Rightarrow>
                   s\<lparr>fetch_calls := Suc (fetch_calls s),
                     console_errors := console_errors s @ [e],
                     deletes := (deletes s)[i := DeleteDone]\<rparr>
               | Inr updated \<Rightarrow>
                   (let s' = s\<lparr>fetch_calls := Suc (fetch_calls s), logs := updated,
                                deletes := (deletes s)[i := DeleteDone]\<rparr>
                    in if targetSid = sid then setSessionId uuid s' else s')))
     else s)"

subsection \<open>Events\<close>

text \<open>
  Everything runs on one thread: an event is handled to its end before the next. The
  events are the user's actions and the completions the handlers wait for.
\<close>

datatype event =
    HistoryLoaded "js_error + InteractionLog list" string
  | Change string
  | Send
  | FrameFired nat
  | AskSettled nat "js_error option"
  | FetchSettled nat "js_error + InteractionLog list"
  | NewChat string
  | SelectSession string
  | Delete string bool
  | DeleteSettled nat "js_error option" "js_error + InteractionLog list" string
  | ListenResolved nat
  | ObserverEvent string "nat \<Rightarrow> string \<times> int"

definition step :: "event \<Rightarrow> app_state \<Rightarrow> app_state" where
  "step ev s =
    (case ev of
       HistoryLoaded r uuid \<Rightarrow> init_settled r uuid s
     | Change v \<Rightarrow> onChange v s
     | Send \<Rightarrow> executeSend s
     | FrameFired i \<Rightarrow> executeSend_frame i s
     | AskSettled i r \<Rightarrow> executeSend_ask i r s
     | FetchSettled i r \<Rightarrow> executeSend_fetch i r s
     | NewChat uuid \<Rightarrow> handleNewChat uuid s
     | SelectSession sid \<Rightarrow> setSessionId sid s
     | Delete targetSid confirmed \<Rightarrow> handleDeleteSession targetSid confirmed s
     | DeleteSettled i d r uuid \<Rightarrow> handleDeleteSession_settled i d r uuid s
     | ListenResolved i \<Rightarrow> listen_resolved i s
     | ObserverEvent payload fresh \<Rightarrow> observer_event payload fresh s)"

definition run :: "event list \<Rightarrow> app_state \<Rightarrow> app_state" where
  "run evs s = fold step evs s"

text \<open>The calls of \<open>executeSend\<close> that have passed the guard and not yet returned.\<close>

definition in_flight :: "app_state \<Rightarrow> nat" where
  "in_flight s = length (filter (\<lambda>t. t \<noteq> SendDone) (sends s))"

text \<open>
  While a call of \<open>executeSend\<close> is outstanding \<open>isThinking\<close> is set, and there is
  exactly one such call; otherwise there is none.
\<close>

definition send_inv :: "app_state \<Rightarrow> bool" where
  "send_inv s = (in_flight s = (if isThinking s then 1 else 0))"

text \<open>
  The listener effect has settled: exactly one callback is attached to the channel and
  it closed over the current \<open>sessionId\<close>.
\<close>

definition listener_settled :: "app_state \<Rightarrow> bool" where
  "listener_settled s =
    (map captured_sessionId (filter attached (listeners s)) = [sessionId s])"

lemmas handler_defs =
  step_def init_settled_def onChange_def executeSend_def executeSend_frame_def
  executeSend_ask_def executeSend_fetch_def handleNewChat_def setSessionId_def
  setupListener_def cleanup_def handleDeleteSession_def handleDeleteSession_settled_def
  listen_resolved_def observer_event_def

section \<open>Boot sequence: proofs\<close>

lemma length_BOOT_STEPS: "length BOOT_STEPS = 6"
  by (simp add: BOOT_STEPS_def)

lemma ticks_Suc: "ticks (Suc k) = tick (ticks k)"
  by (simp add: ticks_def)

lemma ticks_upto: "k \<le> 6 \<Longrightarrow> ticks k = \<lparr>bootIndex = int k - 1, bootCompleted = False\<rparr>"
proof (induction k)
  case 0
  then show ?case by (simp add: ticks_def boot_init_def)
next
  case (Suc k)
  then have "ticks k = \<lparr>bootIndex = int k - 1, bootCompleted = False\<rparr>" by simp
  with Suc.prems show ?case
    by (simp add: ticks_Suc tick_def boot_interval_def length_BOOT_STEPS Let_def)
qed

lemma ticks_beyond: "7 \<le> k \<Longrightarrow> ticks k = \<lparr>bootIndex = 5, bootCompleted = True\<rparr>"
proof (induction k)
  case 0
  then show ?case by simp
next
  case (Suc k)
  show ?case
  proof (cases "k = 6")
    case True
    have "ticks (Suc 6) = tick (ticks 6)" by (rule ticks_Suc)
    also have "ticks 6 = \<lparr>bootIndex = 5, bootCompleted = False\<rparr>"
      using ticks_upto [of 6] by simp
    finally show ?thesis
      using True by (simp add: tick_def boot_interval_def length_BOOT_STEPS Let_def)
  next
    case False
    with Suc.prems have "7 \<le> k" by simp
    then have "ticks k = \<lparr>bootIndex = 5, bootCompleted = True\<rparr>" by (rule Suc.IH)
    then show ?thesis by (simp add: ticks_Suc tick_def)
  qed
qed

lemma tick_mono: "bootIndex s \<le> bootIndex (tick s)"
  by (simp add: tick_def boot_interval_def Let_def)

lemma ticks_range: "- 1 \<le> bootIndex (ticks k) \<and> bootIndex (ticks k) \<le> 5"
proof (cases "k \<le> 6")
  case True
  then show ?thesis by (simp add: ticks_upto)
next
  case False
  then show ?thesis by (simp add: ticks_beyond)
qed

lemma ticks_completed_last: "bootCompleted (ticks k) \<Longrightarrow> bootIndex (ticks k) = 5"
  by (cases "k \<le> 6") (simp_all add: ticks_upto ticks_beyond)

lemma length_renderedSteps: "length (renderedSteps tz b s) = 6"
  by (simp add: renderedSteps_def length_BOOT_STEPS)

lemma status_rendered:
  "i < 6 \<Longrightarrow> status (renderedSteps tz b s ! i) = step_status s (int i)"
  by (simp add: renderedSteps_def length_BOOT_STEPS nth_enumerate_eq render_step_def Let_def)

lemma timestamp_rendered:
  "i < 6 \<Longrightarrow> timestamp (renderedSteps tz b s ! i) =
     (if int i \<le> bootIndex s
      then formatBootTime tz (b + min (int i) (bootIndex s) * STEP_INTERVAL_MS)
      else ''--:--:--'')"
  by (simp add: renderedSteps_def length_BOOT_STEPS nth_enumerate_eq render_step_def Let_def)

lemma map_status_rendered:
  "map status (renderedSteps tz b s) = map (\<lambda>i. step_status s (int i)) [0..<6]"
  by (rule nth_equalityI) (simp_all add: length_renderedSteps status_rendered)

lemma running_count_eq:
  "running_count (renderedSteps tz b s) =
   length (filter (\<lambda>i. step_status s (int i) = running) [0..<6])"
proof -
  have "running_count (renderedSteps tz b s) =
        length (filter (\<lambda>x. x = running) (map status (renderedSteps tz b s)))"
    by (simp add: running_count_def filter_map comp_def)
  also have "\<dots> = length (filter (\<lambda>i. step_status s (int i) = running) [0..<6])"
    by (simp only: map_status_rendered filter_map comp_def length_map)
  finally show ?thesis .
qed

lemma upt6: "[0..<6] = [0, 1, 2, 3, 4, 5]"
  by (simp add: upt_rec)

lemma running_count_cases:
  assumes "- 1 \<le> bootIndex s" and "bootIndex s \<le> 5"
  shows "running_count (renderedSteps tz b s) =
         (if \<not> bootCompleted s \<and> 0 \<le> bootIndex s then 1 else 0)"
proof -
  from assms have "bootIndex s = - 1 \<or> bootIndex s = 0 \<or> bootIndex s = 1 \<or> bootIndex s = 2
      \<or> bootIndex s = 3 \<or> bootIndex s = 4 \<or> bootIndex s = 5"
    by arith
  then show ?thesis
    by (auto simp add: running_count_eq upt6 step_status_def)
qed

text \<open>
  C7, as the code has it. The cursor starts at \<open>-1\<close>. After \<open>k\<close> ticks with \<open>k \<le> N\<close>
  (\<open>N\<close> the number of boot steps) the cursor is \<open>k - 1\<close> and \<open>bootCompleted\<close> is still
  false; for \<open>1 \<le> k \<le> N\<close> step \<open>k - 1\<close> is rendered \<open>running\<close>. The tick that would move
  the cursor past the last step is tick \<open>N + 1\<close>: after \<open>k > N\<close> ticks \<open>bootCompleted\<close> is
  true and the cursor is \<open>N - 1\<close>. No tick lowers the cursor.
\<close>

theorem boot_cursor_progression:
  "bootIndex boot_init = - 1 \<and>
   (k \<le> length BOOT_STEPS \<longrightarrow>
      bootIndex (ticks k) = int k - 1 \<and> \<not> bootCompleted (ticks k)) \<and>
   (1 \<le> k \<and> k \<le> length BOOT_STEPS \<longrightarrow>
      status (renderedSteps tz bootStart (ticks k) ! (k - 1)) = running) \<and>
   (length BOOT_STEPS < k \<longrightarrow>
      bootCompleted (ticks k) \<and> bootIndex (ticks k) = int (length BOOT_STEPS) - 1) \<and>
   bootIndex s \<le> bootIndex (tick s)"
proof -
  have a: "bootIndex boot_init = - 1" by (simp add: boot_init_def)
  have b: "k \<le> length BOOT_STEPS \<longrightarrow>
      bootIndex (ticks k) = int k - 1 \<and> \<not> bootCompleted (ticks k)"
    by (simp add: length_BOOT_STEPS ticks_upto)
  have c: "1 \<le> k \<and> k \<le> length BOOT_STEPS \<longrightarrow>
      status (renderedSteps tz bootStart (ticks k) ! (k - 1)) = running"
  proof
    assume h: "1 \<le> k \<and> k \<le> length BOOT_STEPS"
    then have k: "k \<le> 6" "k - 1 < 6" "int (k - 1) = int k - 1"
      by (auto simp add: length_BOOT_STEPS)
    have "status (renderedSteps tz bootStart (ticks k) ! (k - 1)) =
          step_status (ticks k) (int (k - 1))"
      using k(2) by (rule status_rendered)
    also have "\<dots> = running"
      unfolding k(3) by (simp add: ticks_upto k(1) step_status_def)
    finally show "status (renderedSteps tz bootStart (ticks k) ! (k - 1)) = running" .
  qed
  have d: "length BOOT_STEPS < k \<longrightarrow>
      bootCompleted (ticks k) \<and> bootIndex (ticks k) = int (length BOOT_STEPS) - 1"
    by (simp add: length_BOOT_STEPS ticks_beyond)
  from a b c d tick_mono [of s] show ?thesis by blast
qed

theorem boot_cursor_progression_witness:
  "bootIndex (ticks 3) = 2 \<and> \<not> bootCompleted (ticks 3) \<and>
   status (renderedSteps 0 0 (ticks 3) ! 2) = running \<and>
   bootCompleted (ticks 7) \<and> bootIndex (ticks 7) = 5 \<and>
   bootIndex (ticks 3) \<le> bootIndex (tick (ticks 3))"
  using boot_cursor_progression [of 3 0 0 "ticks 3"] boot_cursor_progression [of 7 0 0 "ticks 3"]
  by (simp add: length_BOOT_STEPS)

text \<open>
  C7 as the specification states it fails at \<open>k = N\<close>: after exactly \<open>N = 6\<close> ticks the
  cursor is on the last step and \<open>bootCompleted\<close> is still false.
\<close>

theorem boot_completed_counterexample:
  "length BOOT_STEPS = 6 \<and> bootIndex (ticks 6) = 5 \<and> \<not> bootCompleted (ticks 6)"
  by (simp add: length_BOOT_STEPS ticks_upto)

text \<open>
  C8, as the code has it. The reachable pairs of cursor and completion flag are the
  states \<open>ticks k\<close>. Across a tick the cursor does not decrease. At most one rendered
  step is \<open>running\<close>: exactly one while the boot is not completed and the first tick has
  happened (cursor \<open>\<ge> 0\<close>), none before the first tick and none once completed. Every
  step with index \<open>\<le>\<close> cursor is \<open>ok\<close> or \<open>running\<close>; every step with index \<open>>\<close> cursor
  is \<open>pending\<close> and renders the timestamp \<open>--:--:--\<close>.
\<close>

theorem boot_render_invariant:
  "bootIndex (ticks k) \<le> bootIndex (ticks (Suc k)) \<and>
   running_count (renderedSteps tz bootStart (ticks k)) =
     (if \<not> bootCompleted (ticks k) \<and> 0 \<le> bootIndex (ticks k) then 1 else 0) \<and>
   (\<forall>i < length BOOT_STEPS. int i \<le> bootIndex (ticks k) \<longrightarrow>
      status (renderedSteps tz bootStart (ticks k) ! i) = ok \<or>
      status (renderedSteps tz bootStart (ticks k) ! i) = running) \<and>
   (\<forall>i < length BOOT_STEPS. bootIndex (ticks k) < int i \<longrightarrow>
      status (renderedSteps tz bootStart (ticks k) ! i) = pending \<and>
      timestamp (renderedSteps tz bootStart (ticks k) ! i) = ''--:--:--'')"
proof -
  have a: "bootIndex (ticks k) \<le> bootIndex (ticks (Suc k))"
    by (simp add: ticks_Suc tick_mono)
  have b: "running_count (renderedSteps tz bootStart (ticks k)) =
     (if \<not> bootCompleted (ticks k) \<and> 0 \<le> bootIndex (ticks k) then 1 else 0)"
    using ticks_range [of k] by (intro running_count_cases) simp_all
  have c: "\<forall>i < length BOOT_STEPS. int i \<le> bootIndex (ticks k) \<longrightarrow>
      status (renderedSteps tz bootStart (ticks k) ! i) = ok \<or>
      status (renderedSteps tz bootStart (ticks k) ! i) = running"
  proof (intro allI impI)
    fix i
    assume i: "i < length BOOT_STEPS" and le: "int i \<le> bootIndex (ticks k)"
    from i have i6: "i < 6" by (simp add: length_BOOT_STEPS)
    show "status (renderedSteps tz bootStart (ticks k) ! i) = ok \<or>
      status (renderedSteps tz bootStart (ticks k) ! i) = running"
    proof (cases "bootCompleted (ticks k)")
      case True
      with le i6 ticks_completed_last [of k] show ?thesis
        by (auto simp add: status_rendered step_status_def length_BOOT_STEPS)
    next
      case False
      with le i6 show ?thesis
        by (auto simp add: status_rendered step_status_def)
    qed
  qed
  have d: "\<forall>i < length BOOT_STEPS. bootIndex (ticks k) < int i \<longrightarrow>
      status (renderedSteps tz bootStart (ticks k) ! i) = pending \<and>
      timestamp (renderedSteps tz bootStart (ticks k) ! i) = ''--:--:--''"
  proof (intro allI impI)
    fix i
    assume i: "i < length BOOT_STEPS" and gt: "bootIndex (ticks k) < int i"
    from i have i6: "i < 6" by (simp add: length_BOOT_STEPS)
    from gt i6 ticks_completed_last [of k] have "\<not> bootCompleted (ticks k)" by auto
    with gt i6 show "status (renderedSteps tz bootStart (ticks k) ! i) = pending \<and>
      timestamp (renderedSteps tz bootStart (ticks k) ! i) = ''--:--:--''"
      by (simp add: status_rendered timestamp_rendered step_status_def)
  qed
  from a b c d show ?thesis by blast
qed

theorem boot_render_invariant_witness:
  "bootIndex (ticks 2) \<le> bootIndex (ticks 3) \<and>
   running_count (renderedSteps 0 0 (ticks 2)) = 1 \<and>
   status (renderedSteps 0 0 (ticks 2) ! 0) = ok \<and>
   status (renderedSteps 0 0 (ticks 2) ! 1) = running \<and>
   status (renderedSteps 0 0 (ticks 2) ! 4) = pending \<and>
   timestamp (renderedSteps 0 0 (ticks 2) ! 4) = ''--:--:--''"
proof -
  have t: "ticks 2 = \<lparr>bootIndex = 1, bootCompleted = False\<rparr>"
    using ticks_upto [of 2] by simp
  note inv = boot_render_invariant [of 2 0 0]
  from inv have a: "bootIndex (ticks 2) \<le> bootIndex (ticks (Suc 2))" by blast
  from inv have "running_count (renderedSteps 0 0 (ticks 2)) =
      (if \<not> bootCompleted (ticks 2) \<and> 0 \<le> bootIndex (ticks 2) then 1 else 0)"
    by blast
  then have b: "running_count (renderedSteps 0 0 (ticks 2)) = 1" by (simp add: t)
  from inv have "\<forall>i < length BOOT_STEPS. bootIndex (ticks 2) < int i \<longrightarrow>
      status (renderedSteps 0 0 (ticks 2) ! i) = pending \<and>
      timestamp (renderedSteps 0 0 (ticks 2) ! i) = ''--:--:--''"
    by blast
  then have "4 < length BOOT_STEPS \<longrightarrow> bootIndex (ticks 2) < int 4 \<longrightarrow>
      status (renderedSteps 0 0 (ticks 2) ! 4) = pending \<and>
      timestamp (renderedSteps 0 0 (ticks 2) ! 4) = ''--:--:--''"
    by (rule spec)
  then have c: "status (renderedSteps 0 0 (ticks 2) ! 4) = pending \<and>
      timestamp (renderedSteps 0 0 (ticks 2) ! 4) = ''--:--:--''"
    by (simp add: length_BOOT_STEPS t)
  have d: "status (renderedSteps 0 0 (ticks 2) ! 0) = ok"
    "status (renderedSteps 0 0 (ticks 2) ! 1) = running"
    by (simp_all add: status_rendered t step_status_def)
  from a b c d show ?thesis by simp
qed

text \<open>
  C8 as the specification states it fails in the initial state: the boot is not
  completed and no rendered step is \<open>running\<close>.
\<close>

theorem boot_running_counterexample:
  "\<not> bootCompleted (ticks 0) \<and> running_count (renderedSteps 0 0 (ticks 0)) = 0"
proof -
  have t: "ticks 0 = \<lparr>bootIndex = - 1, bootCompleted = False\<rparr>"
    using ticks_upto [of 0] by simp
  show ?thesis by (simp add: t running_count_eq upt6 step_status_def)
qed

section \<open>Sessions\<close>

lemma foldl_Set_add:
  "foldl Set_add acc xs = acc @ filter (\<lambda>y. y \<notin> set acc) (first_appearance xs)"
proof (induction xs arbitrary: acc)
  case Nil
  then show ?case by simp
next
  case (Cons x xs)
  show ?case
  proof (cases "x \<in> set acc")
    case True
    then have eq: "(\<lambda>y. y \<noteq> x \<and> y \<notin> set acc) = (\<lambda>y. y \<notin> set acc)" by auto
    from True have "Set_add acc x = acc" by (simp add: Set_add_def)
    with True eq show ?thesis by (simp add: Cons.IH conj_commute)
  next
    case False
    then have "Set_add acc x = acc @ [x]" by (simp add: Set_add_def)
    with False show ?thesis by (simp add: Cons.IH conj_commute)
  qed
qed

lemma Array_from_Set_first_appearance: "Array_from_Set xs = first_appearance xs"
  by (simp add: Array_from_Set_def foldl_Set_add)

lemma set_first_appearance: "set (first_appearance xs) = set xs"
  by (induction xs) auto

lemma distinct_first_appearance: "distinct (first_appearance xs)"
  by (induction xs) (auto simp add: set_first_appearance)

lemma logs_setSessionId: "logs (setSessionId v s) = logs s"
  by (simp add: setSessionId_def setupListener_def cleanup_def split: list.splits)

lemma sessionId_setSessionId: "sessionId (setSessionId v s) = v"
  by (simp add: setSessionId_def setupListener_def cleanup_def split: list.splits)

lemma sessions_eq:
  "sessions s = first_appearance (map session_id (logs s)) @
     (if sessionId s \<noteq> [] \<and> sessionId s \<notin> set (map session_id (logs s))
      then [sessionId s] else [])"
  by (simp add: sessions_def Array_from_Set_first_appearance set_first_appearance Let_def)

text \<open>
  C3. When \<open>fetch_history\<close> resolves with \<open>history\<close>, the startup load replaces the whole
  log collection with it; the active session id becomes the session id of the last log
  if there is one and the id drawn from \<open>crypto.randomUUID()\<close> otherwise. For a history
  of two logs with session ids \<open>s1\<close> and \<open>s2\<close> the active session id is \<open>s2\<close> and the
  session list is \<open>[s1, s2]\<close>.
\<close>

theorem init_replaces_history:
  assumes "init_pending s"
  shows "logs (step (HistoryLoaded (Inr history) uuid) s) = history \<and>
    sessionId (step (HistoryLoaded (Inr history) uuid) s) =
      (if history = [] then uuid else session_id (last history)) \<and>
    (\<forall>a b. history = [a, b] \<and> session_id a = ''s1'' \<and> session_id b = ''s2'' \<longrightarrow>
       sessionId (step (HistoryLoaded (Inr history) uuid) s) = ''s2'' \<and>
       sessions (step (HistoryLoaded (Inr history) uuid) s) = [''s1'', ''s2''])"
proof -
  let ?s' = "step (HistoryLoaded (Inr history) uuid) s"
  have l: "logs ?s' = history"
    using assms by (simp add: step_def init_settled_def logs_setSessionId)
  have i: "sessionId ?s' = (if history = [] then uuid else session_id (last history))"
    using assms by (simp add: step_def init_settled_def sessionId_setSessionId)
  have "sessionId ?s' = ''s2'' \<and> sessions ?s' = [''s1'', ''s2'']"
    if "history = [a, b] \<and> session_id a = ''s1'' \<and> session_id b = ''s2''" for a b
    using that l i by (auto simp add: sessions_eq)
  with l i show ?thesis by blast
qed

theorem init_replaces_history_witness:
  "logs (step (HistoryLoaded (Inr
      [\<lparr>log_id = ''a'', session_id = ''s1'', log_timestamp = 1, user_tokens = [],
        ai_response = ''x'', provider_used = ''gpt''\<rparr>,
       \<lparr>log_id = ''b'', session_id = ''s2'', log_timestamp = 2, user_tokens = [],
        ai_response = ''y'', provider_used = ''gpt''\<rparr>]) ''u'') app_init) =
      [\<lparr>log_id = ''a'', session_id = ''s1'', log_timestamp = 1, user_tokens = [],
        ai_response = ''x'', provider_used = ''gpt''\<rparr>,
       \<lparr>log_id = ''b'', session_id = ''s2'', log_timestamp = 2, user_tokens = [],
        ai_response = ''y'', provider_used = ''gpt''\<rparr>] \<and>
   sessionId (step (HistoryLoaded (Inr
      [\<lparr>log_id = ''a'', session_id = ''s1'', log_timestamp = 1, user_tokens = [],
        ai_response = ''x'', provider_used = ''gpt''\<rparr>,
       \<lparr>log_id = ''b'', session_id = ''s2'', log_timestamp = 2, user_tokens = [],
        ai_response = ''y'', provider_used = ''gpt''\<rparr>]) ''u'') app_init) = ''s2'' \<and>
   sessions (step (HistoryLoaded (Inr
      [\<lparr>log_id = ''a'', session_id = ''s1'', log_timestamp = 1, user_tokens = [],
        ai_response = ''x'', provider_used = ''gpt''\<rparr>,
       \<lparr>log_id = ''b'', session_id = ''s2'', log_timestamp = 2, user_tokens = [],
        ai_response = ''y'', provider_used = ''gpt''\<rparr>]) ''u'') app_init) = [''s1'', ''s2''] \<and>
   sessionId (step (HistoryLoaded (Inr []) ''u'') app_init) = ''u''"
proof -
  have p: "init_pending app_init" by (simp add: app_init_def)
  from init_replaces_history [OF p, of
      "[\<lparr>log_id = ''a'', session_id = ''s1'', log_timestamp = 1, user_tokens = [],
        ai_response = ''x'', provider_used = ''gpt''\<rparr>,
       \<lparr>log_id = ''b'', session_id = ''s2'', log_timestamp = 2, user_tokens = [],
        ai_response = ''y'', provider_used = ''gpt''\<rparr>]" "''u''"]
    init_replaces_history [OF p, of "[]" "''u''"]
  show ?thesis by simp
qed

text \<open>
  C4, as the code has it. The session list is the distinct session ids of the logs in
  first-appearance order, followed by the active session id when that id is not the
  empty string and does not already appear. Hence a non-empty active session id is
  always in the list, also right after \<open>handleNewChat\<close> when no log carries it. The
  empty string is what \<open>sessionId\<close> holds until the startup load has succeeded.
\<close>

theorem sessions_lists_active:
  "sessions s = first_appearance (map session_id (logs s)) @
     (if sessionId s \<noteq> [] \<and> sessionId s \<notin> set (map session_id (logs s))
      then [sessionId s] else []) \<and>
   distinct (sessions s) \<and>
   (sessionId s \<noteq> [] \<longrightarrow> sessionId s \<in> set (sessions s)) \<and>
   (uuid \<noteq> [] \<longrightarrow>
      sessionId (step (NewChat uuid) s) = uuid \<and>
      logs (step (NewChat uuid) s) = logs s \<and>
      uuid \<in> set (sessions (step (NewChat uuid) s)))"
proof -
  have d: "distinct (sessions s)"
    by (simp add: sessions_eq distinct_first_appearance set_first_appearance)
  have m: "sessionId t \<noteq> [] \<longrightarrow> sessionId t \<in> set (sessions t)" for t
    by (simp add: sessions_eq set_first_appearance)
  have n: "sessionId (step (NewChat uuid) s) = uuid \<and> logs (step (NewChat uuid) s) = logs s"
    by (simp add: step_def handleNewChat_def sessionId_setSessionId logs_setSessionId)
  from m [of "step (NewChat uuid) s"] n
  have "uuid \<noteq> [] \<longrightarrow> uuid \<in> set (sessions (step (NewChat uuid) s))" by simp
  with sessions_eq [of s] d m [of s] n show ?thesis by blast
qed

theorem sessions_lists_active_witness:
  "sessions (step (NewChat ''n1'') (app_init\<lparr>logs :=
      [\<lparr>log_id = ''a'', session_id = ''s1'', log_timestamp = 1, user_tokens = [],
        ai_response = ''x'', provider_used = ''gpt''\<rparr>,
       \<lparr>log_id = ''b'', session_id = ''s2'', log_timestamp = 2, user_tokens = [],
        ai_response = ''y'', provider_used = ''gpt''\<rparr>,
       \<lparr>log_id = ''c'', session_id = ''s1'', log_timestamp = 3, user_tokens = [],
        ai_response = ''z'', provider_used = ''gpt''\<rparr>]\<rparr>)) = [''s1'', ''s2'', ''n1''] \<and>
   ''n1'' \<in> set (sessions (step (NewChat ''n1'') app_init)) \<and>
   currentLogs (step (NewChat ''n1'') app_init) = []"
proof -
  let ?s = "app_init\<lparr>logs :=
      [\<lparr>log_id = ''a'', session_id = ''s1'', log_timestamp = 1, user_tokens = [],
        ai_response = ''x'', provider_used = ''gpt''\<rparr>,
       \<lparr>log_id = ''b'', session_id = ''s2'', log_timestamp = 2, user_tokens = [],
        ai_response = ''y'', provider_used = ''gpt''\<rparr>,
       \<lparr>log_id = ''c'', session_id = ''s1'', log_timestamp = 3, user_tokens = [],
        ai_response = ''z'', provider_used = ''gpt''\<rparr>]\<rparr>"
  have a: "sessionId (step (NewChat ''n1'') ?s) = ''n1'' \<and> logs (step (NewChat ''n1'') ?s) = logs ?s"
    using sessions_lists_active [of ?s "''n1''"] by simp
  have "sessions (step (NewChat ''n1'') ?s) = [''s1'', ''s2'', ''n1'']"
    using sessions_lists_active [of "step (NewChat ''n1'') ?s" "''n1''"]
    by (simp add: a)
  moreover have "''n1'' \<in> set (sessions (step (NewChat ''n1'') app_init))"
    using sessions_lists_active [of app_init "''n1''"] by simp
  moreover have "currentLogs (step (NewChat ''n1'') app_init) = []"
    by (simp add: currentLogs_def step_def handleNewChat_def logs_setSessionId app_init_def)
  ultimately show ?thesis by simp
qed

text \<open>
  C4 as the specification states it fails for the empty active session id, which is
  the initial state: the guard \<open>sessionId && ...\<close> does not append it.
\<close>

theorem sessions_active_counterexample:
  "sessions app_init = [] \<and> sessionId app_init \<notin> set (sessions app_init)"
  by (simp add: sessions_def app_init_def Array_from_Set_def)

section \<open>Sending: the single-flight guard\<close>

lemma js_trim_blank:
  assumes "\<forall>c\<in>set t. is_js_space c"
  shows "js_trim t = []"
proof -
  from assms have d: "dropWhile is_js_space t = []" by (induction t) simp_all
  show ?thesis unfolding js_trim_def d by simp
qed

lemma count_update:
  "i < length xs \<Longrightarrow>
   length (filter P (xs[i := y])) + (if P (xs ! i) then 1 else 0) =
   length (filter P xs) + (if P y then 1 else 0)"
proof (induction xs arbitrary: i)
  case Nil
  then show ?case by simp
next
  case (Cons x xs)
  then show ?case by (cases i) auto
qed

lemma in_flight_setSessionId: "in_flight (setSessionId v s) = in_flight s"
  by (simp add: in_flight_def setSessionId_def setupListener_def cleanup_def split: list.splits)

lemma isThinking_setSessionId: "isThinking (setSessionId v s) = isThinking s"
  by (simp add: setSessionId_def setupListener_def cleanup_def split: list.splits)

lemma send_inv_setSessionId: "send_inv (setSessionId v s) = send_inv s"
  by (simp add: send_inv_def in_flight_setSessionId isThinking_setSessionId)

lemma send_inv_executeSend: "send_inv s \<Longrightarrow> send_inv (executeSend s)"
  by (auto simp add: send_inv_def executeSend_def in_flight_def split: if_splits)

lemma send_inv_frame:
  assumes "send_inv s"
  shows "send_inv (executeSend_frame i s)"
proof (cases "i < length (sends s)")
  case True
  show ?thesis
  proof (cases "sends s ! i")
    case (AwaitFrame t sid)
    with True count_update [of i "sends s" "\<lambda>t. t \<noteq> SendDone" AwaitAsk] assms show ?thesis
      by (simp add: send_inv_def executeSend_frame_def in_flight_def)
  qed (use True assms in \<open>simp_all add: executeSend_frame_def\<close>)
next
  case False
  with assms show ?thesis by (simp add: executeSend_frame_def)
qed

text \<open>A task that has not returned keeps \<open>isThinking\<close> set and is the only one.\<close>

lemma active_thinking:
  assumes "send_inv s" and "i < length (sends s)" and "sends s ! i \<noteq> SendDone"
  shows "isThinking s \<and> in_flight s = 1"
proof -
  from assms(2,3) have "sends s ! i \<in> set (filter (\<lambda>t. t \<noteq> SendDone) (sends s))" by simp
  then have "0 < in_flight s" unfolding in_flight_def by (metis length_pos_if_in_set)
  with assms(1) show ?thesis by (auto simp add: send_inv_def split: if_splits)
qed

lemma send_inv_ask:
  assumes "send_inv s"
  shows "send_inv (executeSend_ask i r s)"
proof (cases "i < length (sends s) \<and> sends s ! i = AwaitAsk")
  case True
  with assms have t: "isThinking s \<and> in_flight s = 1" using active_thinking [of s i] by simp
  show ?thesis
  proof (cases r)
    case None
    with True t count_update [of i "sends s" "\<lambda>t. t \<noteq> SendDone" AwaitFetch] show ?thesis
      by (simp add: send_inv_def executeSend_ask_def in_flight_def)
  next
    case (Some e)
    with True t count_update [of i "sends s" "\<lambda>t. t \<noteq> SendDone" SendDone] show ?thesis
      by (simp add: send_inv_def executeSend_ask_def in_flight_def)
  qed
next
  case False
  with assms show ?thesis by (auto simp add: executeSend_ask_def)
qed

lemma send_inv_fetch:
  assumes "send_inv s"
  shows "send_inv (executeSend_fetch i r s)"
proof (cases "i < length (sends s) \<and> sends s ! i = AwaitFetch")
  case True
  with assms have t: "isThinking s \<and> in_flight s = 1" using active_thinking [of s i] by simp
  with True count_update [of i "sends s" "\<lambda>t. t \<noteq> SendDone" SendDone] show ?thesis
    by (cases r) (simp_all add: send_inv_def executeSend_fetch_def in_flight_def)
next
  case False
  with assms show ?thesis by (auto simp add: executeSend_fetch_def)
qed

lemma send_inv_init: "send_inv s \<Longrightarrow> send_inv (init_settled r u s)"
  by (cases r)
    (simp_all add: init_settled_def send_inv_setSessionId, simp_all add: send_inv_def in_flight_def)

lemma send_inv_delete: "send_inv s \<Longrightarrow> send_inv (handleDeleteSession_settled i d r u s)"
  by (cases "deletes s ! i"; cases d; cases r)
    (simp_all add: handleDeleteSession_settled_def Let_def send_inv_setSessionId,
      simp_all add: send_inv_def in_flight_def)

lemma send_inv_step:
  assumes "send_inv s"
  shows "send_inv (step ev s)"
proof (cases ev)
  case (HistoryLoaded r u)
  with assms show ?thesis by (simp add: step_def send_inv_init)
next
  case (Change v)
  with assms show ?thesis
    by (auto simp add: step_def onChange_def send_inv_def in_flight_def split: if_splits)
next
  case Send
  with assms show ?thesis by (simp add: step_def send_inv_executeSend)
next
  case (FrameFired i)
  with assms show ?thesis by (simp add: step_def send_inv_frame)
next
  case (AskSettled i r)
  with assms show ?thesis by (simp add: step_def send_inv_ask)
next
  case (FetchSettled i r)
  with assms show ?thesis by (simp add: step_def send_inv_fetch)
next
  case (NewChat u)
  with assms show ?thesis by (simp add: step_def handleNewChat_def send_inv_setSessionId)
next
  case (SelectSession sid)
  with assms show ?thesis by (simp add: step_def send_inv_setSessionId)
next
  case (Delete t c)
  with assms show ?thesis
    by (auto simp add: step_def handleDeleteSession_def send_inv_def in_flight_def split: if_splits)
next
  case (DeleteSettled i d r u)
  with assms show ?thesis by (simp add: step_def send_inv_delete)
next
  case (ListenResolved i)
  with assms show ?thesis
    by (auto simp add: step_def listen_resolved_def send_inv_def in_flight_def split: if_splits)
next
  case (ObserverEvent p f)
  with assms show ?thesis
    by (auto simp add: step_def observer_event_def send_inv_def in_flight_def split: if_splits)
qed

lemma send_inv_run: "send_inv s \<Longrightarrow> send_inv (run evs s)"
  unfolding run_def by (induction evs arbitrary: s) (simp_all add: send_inv_step)

lemma send_inv_app_init: "send_inv app_init"
  by (simp add: send_inv_def app_init_def in_flight_def)

text \<open>
  C1. After every sequence of events from the initial state at most one call of
  \<open>executeSend\<close> is in flight, and one is in flight exactly when \<open>isThinking\<close> is set.
  A call of \<open>executeSend\<close> while \<open>isThinking\<close> is set, or while the input is empty or
  only white space, changes nothing: no task is started (so no \<open>ask_axis\<close> call is or
  will be issued for it), \<open>inputValue\<close> is unchanged and \<open>isThinking\<close> is not set.
\<close>

theorem executeSend_single_flight:
  "in_flight (run evs app_init) \<le> 1 \<and>
   (isThinking (run evs app_init) \<longleftrightarrow> in_flight (run evs app_init) = 1) \<and>
   (isThinking s \<or> (\<forall>c\<in>set (inputValue s). is_js_space c) \<longrightarrow> step Send s = s)"
proof -
  have "send_inv (run evs app_init)"
    using send_inv_app_init by (rule send_inv_run)
  then have a: "in_flight (run evs app_init) \<le> 1 \<and>
      (isThinking (run evs app_init) \<longleftrightarrow> in_flight (run evs app_init) = 1)"
    by (simp add: send_inv_def split: if_splits)
  have b: "isThinking s \<or> (\<forall>c\<in>set (inputValue s). is_js_space c) \<longrightarrow> step Send s = s"
    by (auto simp add: step_def executeSend_def js_trim_blank)
  from a b show ?thesis by blast
qed

theorem executeSend_single_flight_witness:
  "in_flight (run [Change ''hi'', Send, Send, FrameFired 0, Send] app_init) = 1 \<and>
   ask_calls (run [Change ''hi'', Send, Send, FrameFired 0, Send] app_init) = [(''hi'', [])] \<and>
   step Send (run [Change ''  ''] app_init) = run [Change ''  ''] app_init \<and>
   step Send (run [Change ''hi'', Send] app_init) = run [Change ''hi'', Send] app_init"
proof -
  have t: "isThinking (run [Change ''hi'', Send, Send, FrameFired 0, Send] app_init)"
    by (simp add: run_def handler_defs app_init_def js_trim_def is_js_space_def)
  have a: "ask_calls (run [Change ''hi'', Send, Send, FrameFired 0, Send] app_init) = [(''hi'', [])]"
    by (simp add: run_def handler_defs app_init_def js_trim_def is_js_space_def)
  have w: "\<forall>c\<in>set (inputValue (run [Change ''  ''] app_init)). is_js_space c"
    by (simp add: run_def step_def onChange_def app_init_def is_js_space_def)
  have b: "isThinking (run [Change ''hi'', Send] app_init)"
    by (simp add: run_def handler_defs app_init_def js_trim_def is_js_space_def)
  from executeSend_single_flight [of "[Change ''hi'', Send, Send, FrameFired 0, Send]"
      "run [Change ''  ''] app_init"]
    executeSend_single_flight [of "[]" "run [Change ''hi'', Send] app_init"]
    t a w b
  show ?thesis by simp
qed

section \<open>Sending: the round trip\<close>




text \<open>
  C9. When \<open>ask_axis\<close> rejects with \<open>e\<close>, \<open>e\<close> is logged with \<open>console.error\<close>, the input
  stays cleared, the logs and the active session id are what they were before the send,
  and \<open>isThinking\<close> is cleared. In any state, a rejection of \<open>ask_axis\<close> for a waiting
  task writes the error log, \<open>isThinking\<close> and the task, and nothing else; and
  \<open>isThinking\<close> is cleared on the other exits as well, whenever \<open>fetch_history\<close> settles
  for a waiting task, resolved or rejected.
\<close>

theorem executeSend_ask_error:
  assumes "\<not> isThinking s" and "js_trim (inputValue s) \<noteq> []" and "n = length (sends s)"
  shows "console_errors (run [Send, FrameFired n, AskSettled n (Some e)] s) =
      console_errors s @ [e] \<and>
    inputValue (run [Send, FrameFired n, AskSettled n (Some e)] s) = [] \<and>
    logs (run [Send, FrameFired n, AskSettled n (Some e)] s) = logs s \<and>
    sessionId (run [Send, FrameFired n, AskSettled n (Some e)] s) = sessionId s \<and>
    \<not> isThinking (run [Send, FrameFired n, AskSettled n (Some e)] s) \<and>
    \<not> isThinking (run [Send, FrameFired n, AskSettled n None, FetchSettled n r] s) \<and>
    (\<forall>t i. i < length (sends t) \<and> sends t ! i = AwaitAsk \<longrightarrow>
       step (AskSettled i (Some e)) t =
         t\<lparr>console_errors := console_errors t @ [e], isThinking := False,
           sends := (sends t)[i := SendDone]\<rparr>) \<and>
    (\<forall>t i. i < length (sends t) \<and> sends t ! i = AwaitFetch \<longrightarrow>
       \<not> isThinking (step (FetchSettled i r) t))"
proof -
  let ?f = "run [Send, FrameFired n, AskSettled n (Some e)] s"
  have f: "?f = s\<lparr>inputValue := [], isThinking := False,
      sends := sends s @ [SendDone],
      ask_calls := ask_calls s @ [(js_trim (inputValue s), sessionId s)],
      console_errors := console_errors s @ [e]\<rparr>"
    using assms
    by (simp add: run_def step_def executeSend_def executeSend_frame_def executeSend_ask_def)
  have g: "\<not> isThinking (run [Send, FrameFired n, AskSettled n None, FetchSettled n r] s)"
    using assms
    by (cases r)
      (simp_all add: run_def step_def executeSend_def executeSend_frame_def executeSend_ask_def
        executeSend_fetch_def)
  have h: "\<forall>t i. i < length (sends t) \<and> sends t ! i = AwaitAsk \<longrightarrow>
       step (AskSettled i (Some e)) t =
         t\<lparr>console_errors := console_errors t @ [e], isThinking := False,
           sends := (sends t)[i := SendDone]\<rparr>"
    by (simp add: step_def executeSend_ask_def)
  have k: "\<forall>t i. i < length (sends t) \<and> sends t ! i = AwaitFetch \<longrightarrow>
       \<not> isThinking (step (FetchSettled i r) t)"
    by (cases r) (simp_all add: step_def executeSend_fetch_def)
  from g h k show ?thesis unfolding f by simp
qed

theorem executeSend_ask_error_witness:
  "console_errors (run [Send, FrameFired 0, AskSettled 0 (Some (JsError ''offline''))]
      (run [Change ''hi''] app_init)) = [JsError ''offline''] \<and>
   inputValue (run [Send, FrameFired 0, AskSettled 0 (Some (JsError ''offline''))]
      (run [Change ''hi''] app_init)) = [] \<and>
   logs (run [Send, FrameFired 0, AskSettled 0 (Some (JsError ''offline''))]
      (run [Change ''hi''] app_init)) = [] \<and>
   \<not> isThinking (run [Send, FrameFired 0, AskSettled 0 (Some (JsError ''offline''))]
      (run [Change ''hi''] app_init)) \<and>
   \<not> isThinking (run [Send, FrameFired 0, AskSettled 0 None,
      FetchSettled 0 (Inl (JsError ''offline''))] (run [Change ''hi''] app_init))"
proof -
  let ?s = "run [Change ''hi''] app_init"
  have h: "\<not> isThinking ?s" "js_trim (inputValue ?s) \<noteq> []" "0 = length (sends ?s)"
    by (simp_all add: run_def step_def onChange_def app_init_def js_trim_def is_js_space_def)
  have t: "console_errors ?s = []" "logs ?s = []"
    by (simp_all add: run_def step_def onChange_def app_init_def)
  from executeSend_ask_error [OF h, of "JsError ''offline''" "Inl (JsError ''offline'')"] t
  show ?thesis by simp
qed

text \<open>
  C10. No step of a send changes the active session id: not the call of \<open>executeSend\<close>,
  not the animation frame, not the settling of \<open>ask_axis\<close>, not the settling of
  \<open>fetch_history\<close>, whatever they return. When \<open>fetch_history\<close> resolves for a waiting
  task the state changes in the logs, in \<open>isThinking\<close> and in the task only. The startup
  load, in contrast, sets the active session id to that of the last fetched log.
\<close>

theorem executeSend_keeps_sessionId:
  "sessionId (step Send s) = sessionId s \<and>
   sessionId (step (FrameFired i) s) = sessionId s \<and>
   sessionId (step (AskSettled i a) s) = sessionId s \<and>
   sessionId (step (FetchSettled i r) s) = sessionId s \<and>
   (i < length (sends s) \<and> sends s ! i = AwaitFetch \<longrightarrow>
      step (FetchSettled i (Inr updated)) s =
        s\<lparr>logs := updated, isThinking := False, sends := (sends s)[i := SendDone]\<rparr>) \<and>
   (init_pending s \<and> updated \<noteq> [] \<longrightarrow>
      sessionId (step (HistoryLoaded (Inr updated) uuid) s) = session_id (last updated))"
proof -
  have a: "sessionId (step Send s) = sessionId s"
    by (simp add: step_def executeSend_def)
  have b: "sessionId (step (FrameFired i) s) = sessionId s"
    by (simp add: step_def executeSend_frame_def split: send_task.splits)
  have c: "sessionId (step (AskSettled i a) s) = sessionId s"
    by (simp add: step_def executeSend_ask_def split: option.splits)
  have d: "sessionId (step (FetchSettled i r) s) = sessionId s"
    by (simp add: step_def executeSend_fetch_def split: sum.splits)
  have e: "i < length (sends s) \<and> sends s ! i = AwaitFetch \<longrightarrow>
      step (FetchSettled i (Inr updated)) s =
        s\<lparr>logs := updated, isThinking := False, sends := (sends s)[i := SendDone]\<rparr>"
    by (simp add: step_def executeSend_fetch_def)
  have f: "init_pending s \<and> updated \<noteq> [] \<longrightarrow>
      sessionId (step (HistoryLoaded (Inr updated) uuid) s) = session_id (last updated)"
    by (simp add: step_def init_settled_def sessionId_setSessionId)
  from a b c d e f show ?thesis by blast
qed

theorem executeSend_keeps_sessionId_witness:
  "sessionId (run [NewChat ''n1'', Change ''hi'', Send, FrameFired 0, AskSettled 0 None]
      app_init) = ''n1'' \<and>
   sessionId (step (FetchSettled 0 (Inr
      [\<lparr>log_id = ''a'', session_id = ''s1'', log_timestamp = 1, user_tokens = [],
        ai_response = ''x'', provider_used = ''gpt''\<rparr>]))
      (run [NewChat ''n1'', Change ''hi'', Send, FrameFired 0, AskSettled 0 None] app_init)) =
      ''n1'' \<and>
   logs (step (FetchSettled 0 (Inr
      [\<lparr>log_id = ''a'', session_id = ''s1'', log_timestamp = 1, user_tokens = [],
        ai_response = ''x'', provider_used = ''gpt''\<rparr>]))
      (run [NewChat ''n1'', Change ''hi'', Send, FrameFired 0, AskSettled 0 None] app_init)) =
      [\<lparr>log_id = ''a'', session_id = ''s1'', log_timestamp = 1, user_tokens = [],
        ai_response = ''x'', provider_used = ''gpt''\<rparr>] \<and>
   sessionId (step (HistoryLoaded (Inr
      [\<lparr>log_id = ''a'', session_id = ''s1'', log_timestamp = 1, user_tokens = [],
        ai_response = ''x'', provider_used = ''gpt''\<rparr>]) ''u'')
      (run [NewChat ''n1'', Change ''hi'', Send, FrameFired 0, AskSettled 0 None] app_init)) =
      ''s1''"
proof -
  let ?s = "run [NewChat ''n1'', Change ''hi'', Send, FrameFired 0, AskSettled 0 None] app_init"
  let ?h = "[\<lparr>log_id = ''a'', session_id = ''s1'', log_timestamp = 1, user_tokens = [],
        ai_response = ''x'', provider_used = ''gpt''\<rparr>]"
  have n: "sessionId ?s = ''n1''"
    by (simp add: run_def handler_defs app_init_def js_trim_def is_js_space_def)
  have w: "0 < length (sends ?s) \<and> sends ?s ! 0 = AwaitFetch"
    by (simp add: run_def handler_defs app_init_def js_trim_def is_js_space_def)
  have p: "init_pending ?s \<and> ?h \<noteq> []"
    by (simp add: run_def handler_defs app_init_def js_trim_def is_js_space_def)
  note k = executeSend_keeps_sessionId [of ?s 0 None "Inr ?h" ?h "''u''"]
  from k have a: "sessionId (step (FetchSettled 0 (Inr ?h)) ?s) = sessionId ?s" by blast
  from k w have "step (FetchSettled 0 (Inr ?h)) ?s =
      ?s\<lparr>logs := ?h, isThinking := False, sends := (sends ?s)[0 := SendDone]\<rparr>" by blast
  then have b: "logs (step (FetchSettled 0 (Inr ?h)) ?s) = ?h" by simp
  from k p have c: "sessionId (step (HistoryLoaded (Inr ?h) ''u'') ?s) = session_id (last ?h)"
    by blast
  from n a b c show ?thesis by simp
qed

section \<open>The observer listener\<close>

lemma observer_event_settled:
  assumes "listener_settled s"
  shows "logs (observer_event payload fresh s) =
    logs s @ [newMessage (sessionId s) (fresh 0) payload]"
proof -
  from assms obtain l where l: "filter attached (listeners s) = [l]"
      and c: "captured_sessionId l = sessionId s"
    unfolding listener_settled_def by (auto simp add: map_eq_Cons_conv)
  show ?thesis by (simp add: observer_event_def l c enumerate_simps)
qed

text \<open>
  When each promise of \<open>listen\<close> resolves before the next change of \<open>sessionId\<close>, the
  effect's cleanup detaches the old callback and the listener is settled again: one
  \<open>unlisten\<close> call, one attached callback, which carries the current session id.
\<close>

lemma listener_resubscribed_in_order:
  "listener_settled (run [ListenResolved 0, NewChat ''s1'', ListenResolved 1] app_init) \<and>
   unlisten_calls (run [ListenResolved 0, NewChat ''s1'', ListenResolved 1] app_init) = 1"
  by (simp add: listener_settled_def run_def handler_defs app_init_def)

text \<open>
  C5, evaluated on the code where it fails. The startup load sets \<open>sessionId\<close> to \<open>s1\<close>
  before the promise of the first \<open>listen\<close> (called with \<open>sessionId = ""\<close>) has resolved,
  so the cleanup finds \<open>unlisten\<close> unassigned and detaches nothing. Both promises then
  resolve. One event with payload \<open>hello\<close>, received while the active session id is
  \<open>s1\<close>, appends two logs: one carries the session id \<open>""\<close>, the other \<open>s1\<close>.
\<close>

theorem observer_event_duplicated:
  "sessionId (run [HistoryLoaded (Inr
      [\<lparr>log_id = ''a'', session_id = ''s1'', log_timestamp = 1, user_tokens = [],
        ai_response = ''x'', provider_used = ''gpt''\<rparr>]) ''u'',
      ListenResolved 0, ListenResolved 1] app_init) = ''s1'' \<and>
   logs (run [HistoryLoaded (Inr
      [\<lparr>log_id = ''a'', session_id = ''s1'', log_timestamp = 1, user_tokens = [],
        ai_response = ''x'', provider_used = ''gpt''\<rparr>]) ''u'',
      ListenResolved 0, ListenResolved 1,
      ObserverEvent ''hello'' (\<lambda>k. (if k = 0 then ''id0'' else ''id1'', 1000))] app_init) =
     [\<lparr>log_id = ''a'', session_id = ''s1'', log_timestamp = 1, user_tokens = [],
        ai_response = ''x'', provider_used = ''gpt''\<rparr>,
      \<lparr>log_id = ''id0'', session_id = [], log_timestamp = 1000, user_tokens = [],
        ai_response = ''hello'', provider_used = ''Observer''\<rparr>,
      \<lparr>log_id = ''id1'', session_id = ''s1'', log_timestamp = 1000, user_tokens = [],
        ai_response = ''hello'', provider_used = ''Observer''\<rparr>]"
  by (simp add: run_def handler_defs app_init_def newMessage_def enumerate_simps)

text \<open>
  C6, evaluated on the code where it fails. On the same interleaving \<open>listen\<close> has been
  called twice and no \<open>unlisten\<close> has been called, and two callbacks are attached, the
  first with the session id \<open>""\<close> that is no longer active. A later change of session
  cleans up the second run only: three calls of \<open>listen\<close>, one of \<open>unlisten\<close>, and the
  first callback is still attached.
\<close>

theorem listener_leaked:
  "length (listeners (run [HistoryLoaded (Inr
      [\<lparr>log_id = ''a'', session_id = ''s1'', log_timestamp = 1, user_tokens = [],
        ai_response = ''x'', provider_used = ''gpt''\<rparr>]) ''u'',
      ListenResolved 0, ListenResolved 1] app_init)) = 2 \<and>
   unlisten_calls (run [HistoryLoaded (Inr
      [\<lparr>log_id = ''a'', session_id = ''s1'', log_timestamp = 1, user_tokens = [],
        ai_response = ''x'', provider_used = ''gpt''\<rparr>]) ''u'',
      ListenResolved 0, ListenResolved 1] app_init) = 0 \<and>
   map captured_sessionId (filter attached (listeners (run [HistoryLoaded (Inr
      [\<lparr>log_id = ''a'', session_id = ''s1'', log_timestamp = 1, user_tokens = [],
        ai_response = ''x'', provider_used = ''gpt''\<rparr>]) ''u'',
      ListenResolved 0, ListenResolved 1] app_init))) = [[], ''s1''] \<and>
   length (listeners (run [HistoryLoaded (Inr
      [\<lparr>log_id = ''a'', session_id = ''s1'', log_timestamp = 1, user_tokens = [],
        ai_response = ''x'', provider_used = ''gpt''\<rparr>]) ''u'',
      ListenResolved 0, ListenResolved 1, NewChat ''s2'', ListenResolved 2] app_init)) = 3 \<and>
   unlisten_calls (run [HistoryLoaded (Inr
      [\<lparr>log_id = ''a'', session_id = ''s1'', log_timestamp = 1, user_tokens = [],
        ai_response = ''x'', provider_used = ''gpt''\<rparr>]) ''u'',
      ListenResolved 0, ListenResolved 1, NewChat ''s2'', ListenResolved 2] app_init) = 1 \<and>
   map captured_sessionId (filter attached (listeners (run [HistoryLoaded (Inr
      [\<lparr>log_id = ''a'', session_id = ''s1'', log_timestamp = 1, user_tokens = [],
        ai_response = ''x'', provider_used = ''gpt''\<rparr>]) ''u'',
      ListenResolved 0, ListenResolved 1, NewChat ''s2'', ListenResolved 2] app_init))) =
     [[], ''s2'']"
  by (simp add: run_def handler_defs app_init_def)

end
